theory Spec2Isabelle
  imports Main "HOL-Library.Log_Nat"
begin

section \<open>The Veeam net-perf parser\<close>

text \<open>
  A shallow embedding of \<^verbatim>\<open>veeam-netperf-parser.py\<close>. Text is a list of characters, each
  a code point below 256. The Python functions keep their names. What the source takes from
  the standard library (the \<^verbatim>\<open>re\<close> patterns, \<^verbatim>\<open>str.split\<close>, \<^verbatim>\<open>int\<close>,
  \<^verbatim>\<open>float\<close>, \<^verbatim>\<open>csv.DictWriter\<close>) is written out as functions of its own, for the
  fragment the program uses. An exception is a value: functions that can raise return
  \<open>py_error + 'a\<close>, and \<^verbatim>\<open>parse_size\<close>, which catches every exception, returns an option.
\<close>

subsection \<open>Character classes\<close>

text \<open>
  \<^verbatim>\<open>\s\<close>, \<^verbatim>\<open>str.strip\<close> and \<^verbatim>\<open>str.split\<close> share one notion of whitespace: tab to
  carriage return, the four separators 0x1C to 0x1F, space, and below 256 also 0x85 and 0xA0.
\<close>

definition is_space :: "char \<Rightarrow> bool" where
  "is_space c = (c \<in> set [CHR 0x09, CHR 0x0A, CHR 0x0B, CHR 0x0C, CHR 0x0D,
                            CHR 0x1C, CHR 0x1D, CHR 0x1E, CHR 0x1F, CHR '' '', CHR 0x85, CHR 0xA0])"

definition is_digit :: "char \<Rightarrow> bool" where
  "is_digit c = (c \<in> set ''0123456789'')"

text \<open>\<^verbatim>\<open>\w\<close>: alphanumeric or underscore; above 127 the letters, digits and fractions of Latin-1.\<close>

definition is_word :: "char \<Rightarrow> bool" where
  "is_word c =
     (if c \<in> set ''0123456789ABCDEFGHIJKLMNOPQRSTUVWXYZ_abcdefghijklmnopqrstuvwxyz'' then True
      else (let n = (of_char c :: nat) in
        n = 170 \<or> n = 178 \<or> n = 179 \<or> n = 181 \<or> n = 185 \<or> n = 186
        \<or> (188 \<le> n \<and> n \<le> 190) \<or> (192 \<le> n \<and> n \<le> 214)
        \<or> (216 \<le> n \<and> n \<le> 246) \<or> (248 \<le> n \<and> n \<le> 255)))"

text \<open>
  Case folding of the ASCII letters. Every letter of the patterns and of the unit table is
  ASCII, and no other code point below 256 folds to an ASCII letter.
\<close>

definition lower :: "char \<Rightarrow> char" where
  "lower c = (case map_of (zip ''ABCDEFGHIJKLMNOPQRSTUVWXYZ'' ''abcdefghijklmnopqrstuvwxyz'') c of
                None \<Rightarrow> c | Some d \<Rightarrow> d)"

definition upper :: "char \<Rightarrow> char" where
  "upper c = (case map_of (zip ''abcdefghijklmnopqrstuvwxyz'' ''ABCDEFGHIJKLMNOPQRSTUVWXYZ'') c of
                None \<Rightarrow> c | Some d \<Rightarrow> d)"

subsection \<open>Regular expressions\<close>

text \<open>
  The fragment of \<^verbatim>\<open>re\<close> the five patterns are written in. A repetition is always over a
  character class, with a lower bound, an optional upper bound and a flag that is \<open>True\<close>
  for a greedy and \<open>False\<close> for a lazy quantifier. \<open>Lit\<close> compares ignoring case: four
  patterns are compiled with \<^verbatim>\<open>re.I\<close> and the fifth has no literal.
\<close>

datatype rx =
    Eps
  | Lit string
  | Cls "char \<Rightarrow> bool"
  | Rep "char \<Rightarrow> bool" nat "nat option" bool
  | Opt rx
  | Alt rx rx
  | Cat rx rx
  | Grp string rx
  | Bol
  | Wb

text \<open>
  A matcher state is the character before the current position (\<open>None\<close> at the start of
  the text), the text from the current position on, and the groups captured so far.
\<close>

type_synonym caps = "(string \<times> string) list"
type_synonym mstate = "char option \<times> string \<times> caps"

fun lit_match :: "string \<Rightarrow> char option \<Rightarrow> string \<Rightarrow> (char option \<times> string) option" where
  "lit_match [] prev rest = Some (prev, rest)"
| "lit_match (c # cs) prev [] = None"
| "lit_match (c # cs) prev (x # xs) =
     (if lower x = lower c then lit_match cs (Some x) xs else None)"

text \<open>The positions reached by taking 0, 1, 2, ... characters of a class, at most \<open>hi\<close>.\<close>

fun runs :: "(char \<Rightarrow> bool) \<Rightarrow> nat option \<Rightarrow> char option \<Rightarrow> string \<Rightarrow> (char option \<times> string) list" where
  "runs p hi prev [] = [(prev, [])]"
| "runs p hi prev (c # cs) =
     (prev, c # cs) #
       (if p c \<and> hi \<noteq> Some 0 then runs p (map_option (\<lambda>n. n - 1) hi) (Some c) cs else [])"

definition at_boundary :: "char option \<Rightarrow> string \<Rightarrow> bool" where
  "at_boundary prev rest =
     ((case prev of None \<Rightarrow> False | Some c \<Rightarrow> is_word c) \<noteq>
      (case rest of [] \<Rightarrow> False | c # _ \<Rightarrow> is_word c))"

text \<open>
  All the ways a pattern matches from a state, in the order a backtracking matcher tries
  them: a greedy repetition longest first, a lazy one shortest first, the left branch of an
  alternative before the right one, an optional part taken before it is skipped.
\<close>

fun matches :: "rx \<Rightarrow> mstate \<Rightarrow> mstate list" where
  "matches Eps st = [st]"
| "matches (Lit l) (prev, rest, cs) =
     (case lit_match l prev rest of None \<Rightarrow> [] | Some (prev', rest') \<Rightarrow> [(prev', rest', cs)])"
| "matches (Cls p) (prev, rest, cs) =
     (case rest of [] \<Rightarrow> [] | c # rest' \<Rightarrow> if p c then [(Some c, rest', cs)] else [])"
| "matches (Rep p lo hi greedy) (prev, rest, cs) =
     (let rs = drop lo (runs p hi prev rest)
      in map (\<lambda>(prev', rest'). (prev', rest', cs)) (if greedy then rev rs else rs))"
| "matches (Opt r) st = matches r st @ [st]"
| "matches (Alt a b) st = matches a st @ matches b st"
| "matches (Cat a b) st = concat (map (matches b) (matches a st))"
| "matches (Grp n r) (prev, rest, cs) =
     map (\<lambda>(prev', rest', cs'). (prev', rest', (n, take (length rest - length rest') rest) # cs'))
       (matches r (prev, rest, cs))"
| "matches Bol (prev, rest, cs) = (if prev = None then [(prev, rest, cs)] else [])"
| "matches Wb (prev, rest, cs) = (if at_boundary prev rest then [(prev, rest, cs)] else [])"

fun seq :: "rx list \<Rightarrow> rx" where
  "seq [] = Eps"
| "seq [r] = r"
| "seq (r # rs) = Cat r (seq rs)"

text \<open>A match object: where the match starts and ends, and its named groups.\<close>

record rmatch =
  m_start :: nat
  m_end :: nat
  groups :: caps

definition match_at :: "rx \<Rightarrow> nat \<Rightarrow> char option \<Rightarrow> string \<Rightarrow> rmatch option" where
  "match_at r i prev rest =
     (case matches r (prev, rest, []) of
        [] \<Rightarrow> None
      | (prev', rest', cs) # _ \<Rightarrow>
          Some \<lparr>m_start = i, m_end = i + (length rest - length rest'), groups = cs\<rparr>)"

text \<open>\<^verbatim>\<open>pattern.match(s)\<close>: a match at the start of the text only.\<close>

definition rx_match :: "rx \<Rightarrow> string \<Rightarrow> rmatch option" where
  "rx_match r s = match_at r 0 None s"

text \<open>\<^verbatim>\<open>pattern.search(s)\<close>: the first position, from the left, where the pattern matches.\<close>

fun search_from :: "rx \<Rightarrow> nat \<Rightarrow> char option \<Rightarrow> string \<Rightarrow> rmatch option" where
  "search_from r i prev [] = match_at r i prev []"
| "search_from r i prev (c # cs) =
     (case match_at r i prev (c # cs) of
        Some m \<Rightarrow> Some m
      | None \<Rightarrow> search_from r (Suc i) (Some c) cs)"

definition rx_search :: "rx \<Rightarrow> string \<Rightarrow> rmatch option" where
  "rx_search r s = search_from r 0 None s"

text \<open>\<^verbatim>\<open>m["name"]\<close>: the text of a group, \<open>None\<close> when the group took no part in the match.\<close>

definition grp :: "rmatch \<Rightarrow> string \<Rightarrow> string option" where
  "grp m n = map_of (groups m) n"

subsection \<open>The patterns\<close>

definition ts_class :: "char \<Rightarrow> bool" where
  "ts_class c = (is_digit c \<or> c = CHR '':'' \<or> c = CHR ''.'' \<or> c = CHR ''-'' \<or> is_space c)"

definition digit_or_dot :: "char \<Rightarrow> bool" where
  "digit_or_dot c = (is_digit c \<or> c = CHR ''.'')"

text \<open>The dot of a pattern compiled without \<^verbatim>\<open>re.S\<close>: any character but a line feed.\<close>

definition not_newline :: "char \<Rightarrow> bool" where
  "not_newline c = (c \<noteq> CHR 0x0A)"

definition colon_or_eq :: "char \<Rightarrow> bool" where
  "colon_or_eq c = (c = CHR '':'' \<or> c = CHR ''='')"

definition TS :: rx where
  "TS = seq [Bol, Grp ''ts'' (Rep ts_class 19 (Some 26) True), Rep is_space 1 None True]"

definition BOTTLE :: rx where
  "BOTTLE = seq [Lit ''Bottleneck:'', Rep is_space 0 None True, Lit ''Network:'',
     Rep is_space 0 None True, Grp ''pct'' (Rep is_digit 1 (Some 3) True), Lit ''%'']"

definition size_unit :: rx where
  "size_unit = Alt (Lit ''KB'') (Alt (Lit ''MB'') (Alt (Lit ''GB'') (Lit ''TB'')))"

definition speed_unit :: rx where
  "speed_unit = Alt (Lit ''KB'') (Alt (Lit ''MB'') (Lit ''GB''))"

definition XFER :: rx where
  "XFER = seq [Lit ''Transfer'', Opt (Lit ''red''), Lit '':'', Rep is_space 0 None True,
     Grp ''bytes'' (seq [Rep digit_or_dot 1 None True, Rep is_space 0 None True, size_unit]),
     Rep not_newline 0 None False, Lit ''Duration:'', Rep is_space 0 None True,
     Grp ''dur'' (seq [Rep is_digit 2 (Some 2) True, Lit '':'', Rep is_digit 2 (Some 2) True,
                      Lit '':'', Rep is_digit 2 (Some 2) True]),
     Rep not_newline 0 None False, Lit ''Avg speed:'', Rep is_space 0 None True,
     Grp ''spd'' (seq [Rep digit_or_dot 1 None True, Rep is_space 0 None True, speed_unit,
                      Lit ''/s''])]"

definition WAN :: rx where
  "WAN = seq [Lit ''WAN Accelerator'', Rep not_newline 0 None False,
     Alt (Lit ''hit'') (Lit ''cache hit''), Opt (Cls colon_or_eq), Rep is_space 0 None True,
     Grp ''hit'' (Rep is_digit 1 (Some 3) True), Lit ''%'']"

definition RETRY :: rx where
  "RETRY = seq [Wb, Alt (Lit ''retry'') (Lit ''retries''), Rep is_space 0 None True,
     Opt (Cls colon_or_eq), Rep is_space 0 None True,
     Grp ''retries'' (Rep is_digit 1 None True), Wb]"

subsection \<open>Strings and numbers\<close>

datatype py_error = ValueError | TypeError | AttributeError

definition strip :: "string \<Rightarrow> string" where
  "strip s = rev (dropWhile is_space (rev (dropWhile is_space s)))"

text \<open>\<^verbatim>\<open>s.split()\<close>: the maximal runs of characters that are not whitespace.\<close>

fun split_ws :: "string \<Rightarrow> string \<Rightarrow> string list" where
  "split_ws [] cur = (if cur = [] then [] else [cur])"
| "split_ws (c # cs) cur =
     (if is_space c then (if cur = [] then split_ws cs [] else cur # split_ws cs [])
      else split_ws cs (cur @ [c]))"

text \<open>\<^verbatim>\<open>s.split(sep)\<close>: the pieces between the separators, empty pieces kept.\<close>

fun split_on :: "char \<Rightarrow> string \<Rightarrow> string \<Rightarrow> string list" where
  "split_on sep [] cur = [cur]"
| "split_on sep (c # cs) cur =
     (if c = sep then cur # split_on sep cs [] else split_on sep cs (cur @ [c]))"

text \<open>Digits with single underscores between them; the result is the digits alone.\<close>

fun us_digits :: "string \<Rightarrow> string option" where
  "us_digits [] = None"
| "us_digits [c] = (if is_digit c then Some [c] else None)"
| "us_digits (c # d # cs) =
     (if is_digit c
      then map_option ((#) c) (if d = CHR ''_'' then us_digits cs else us_digits (d # cs))
      else None)"

definition digit_val :: "char \<Rightarrow> int" where
  "digit_val c = of_char c - 48"

definition int_of_digits :: "string \<Rightarrow> int" where
  "int_of_digits ds = foldl (\<lambda>a c. 10 * a + digit_val c) 0 ds"

text \<open>
  \<^verbatim>\<open>int(s)\<close> for a string: surrounding whitespace, a sign, decimal digits. The interpreter
  refuses a string of more than \<^verbatim>\<open>sys.get_int_max_str_digits()\<close> digits, 4300 unless the
  program or its environment changes it (this program does not), with a \<^verbatim>\<open>ValueError\<close>.
\<close>

definition int_max_str_digits :: nat where
  "int_max_str_digits = 4300"

definition py_int :: "string \<Rightarrow> py_error + int" where
  "py_int s =
     (let t = strip s;
          (neg, body) = (case t of [] \<Rightarrow> (False, [])
                         | c # r \<Rightarrow> if c = CHR ''-'' then (True, r)
                                   else if c = CHR ''+'' then (False, r) else (False, t))
      in case us_digits body of
           None \<Rightarrow> Inl ValueError
         | Some ds \<Rightarrow>
             if int_max_str_digits < length ds then Inl ValueError
             else Inr (if neg then - int_of_digits ds else int_of_digits ds))"

text \<open>
  A float is a rational that a double represents, an infinity or a NaN. \<open>round_double\<close>
  rounds a rational to the nearest double, ties to the even significand, as the conversion
  of a decimal string and every arithmetic operation do.
\<close>

datatype fl = Fin rat | PInf | NInf | NaN

definition pow2 :: "int \<Rightarrow> rat" where
  "pow2 k = (if 0 \<le> k then 2 ^ nat k else 1 / 2 ^ nat (- k))"

definition pow10 :: "int \<Rightarrow> rat" where
  "pow10 k = (if 0 \<le> k then 10 ^ nat k else 1 / 10 ^ nat (- k))"

text \<open>For positive \<open>a\<close>, the exponent \<open>e\<close> with \<open>2 ^ e \<le> a < 2 ^ (e + 1)\<close>.\<close>

definition ilog2 :: "rat \<Rightarrow> int" where
  "ilog2 a = (let (n, d) = quotient_of a; k = bitlen n - bitlen d
              in if pow2 k \<le> a then k else k - 1)"

definition round_half_even :: "rat \<Rightarrow> int" where
  "round_half_even x =
     (let f = \<lfloor>x\<rfloor>; d = x - of_int f
      in if d < 1 / 2 then f else if 1 / 2 < d then f + 1 else if even f then f else f + 1)"

definition round_double :: "rat \<Rightarrow> fl" where
  "round_double q =
     (if q = 0 then Fin 0
      else let a = \<bar>q\<bar>;
               u = pow2 (max (ilog2 a - 52) (- 1074));
               r = of_int (round_half_even (a / u)) * u
           in if 2 ^ 1024 \<le> r then (if 0 < q then PInf else NInf)
              else Fin (if 0 < q then r else - r))"

definition split_at_first :: "(char \<Rightarrow> bool) \<Rightarrow> string \<Rightarrow> string \<times> string option" where
  "split_at_first p s =
     (case dropWhile (\<lambda>c. \<not> p c) s of
        [] \<Rightarrow> (s, None)
      | _ # t \<Rightarrow> (takeWhile (\<lambda>c. \<not> p c) s, Some t))"

text \<open>The digits of a mantissa as one number, and how many of them follow the point.\<close>

definition mantissa :: "string \<Rightarrow> string option \<Rightarrow> (int \<times> nat) option" where
  "mantissa ip fp =
     (case fp of
        None \<Rightarrow> map_option (\<lambda>ds. (int_of_digits ds, 0)) (us_digits ip)
      | Some f \<Rightarrow>
          if ip = [] then map_option (\<lambda>fs. (int_of_digits fs, length fs)) (us_digits f)
          else (case us_digits ip of
                  None \<Rightarrow> None
                | Some ds \<Rightarrow>
                    if f = [] then Some (int_of_digits ds, 0)
                    else map_option (\<lambda>fs. (int_of_digits (ds @ fs), length fs)) (us_digits f)))"

definition exponent :: "string option \<Rightarrow> int option" where
  "exponent ex =
     (case ex of
        None \<Rightarrow> Some 0
      | Some t \<Rightarrow>
          (case t of
             [] \<Rightarrow> None
           | c # r \<Rightarrow>
               if c = CHR ''-'' then map_option (\<lambda>ds. - int_of_digits ds) (us_digits r)
               else if c = CHR ''+'' then map_option (\<lambda>ds. int_of_digits ds) (us_digits r)
               else map_option (\<lambda>ds. int_of_digits ds) (us_digits t)))"

definition parse_decimal :: "string \<Rightarrow> rat option" where
  "parse_decimal s =
     (let (mant, ex) = split_at_first (\<lambda>c. c = CHR ''e'' \<or> c = CHR ''E'') s;
          (ip, fp) = split_at_first (\<lambda>c. c = CHR ''.'') mant
      in case mantissa ip fp of
           None \<Rightarrow> None
         | Some (n, k) \<Rightarrow>
             (case exponent ex of
                None \<Rightarrow> None
              | Some e \<Rightarrow> Some (of_int n * pow10 (e - int k))))"

text \<open>\<^verbatim>\<open>float(s)\<close> for a string; \<open>None\<close> is its \<^verbatim>\<open>ValueError\<close>.\<close>

definition py_float :: "string \<Rightarrow> fl option" where
  "py_float s =
     (let t = strip s;
          (neg, body) = (case t of [] \<Rightarrow> (False, [])
                         | c # r \<Rightarrow> if c = CHR ''-'' then (True, r)
                                   else if c = CHR ''+'' then (False, r) else (False, t));
          word = map lower body
      in if word = ''inf'' \<or> word = ''infinity'' then Some (if neg then NInf else PInf)
         else if word = ''nan'' then Some NaN
         else map_option (\<lambda>q. round_double (if neg then - q else q)) (parse_decimal body))"

text \<open>
  A float times a positive integer that a double represents exactly (the unit table holds
  powers of two): the exact product, rounded.
\<close>

definition fl_mul_int :: "fl \<Rightarrow> int \<Rightarrow> fl" where
  "fl_mul_int x k = (case x of Fin q \<Rightarrow> round_double (q * of_int k) | _ \<Rightarrow> x)"

text \<open>\<^verbatim>\<open>int(x)\<close> for a float truncates towards zero, and raises on an infinity or a NaN.\<close>

definition int_of_fl :: "fl \<Rightarrow> int option" where
  "int_of_fl x = (case x of Fin q \<Rightarrow> Some (if 0 \<le> q then \<lfloor>q\<rfloor> else \<lceil>q\<rceil>) | _ \<Rightarrow> None)"

subsection \<open>The parsers of the source\<close>

definition parse_ts_prefix :: "string \<Rightarrow> string option \<times> string" where
  "parse_ts_prefix line =
     (case rx_match TS line of
        None \<Rightarrow> (None, line)
      | Some m \<Rightarrow> (grp m ''ts'', drop (m_end m) line))"

definition mult :: "(string \<times> int) list" where
  "mult = [(''KB'', 2 ^ 10), (''MB'', 2 ^ 20), (''GB'', 2 ^ 30), (''TB'', 2 ^ 40)]"

text \<open>Every exception raised in the body is caught and becomes \<open>None\<close>.\<close>

definition parse_size :: "string \<Rightarrow> int option" where
  "parse_size text =
     (case split_ws (strip text) [] of
        [num, unit] \<Rightarrow>
          (case py_float num of
             None \<Rightarrow> None
           | Some x \<Rightarrow>
               (case map_of mult (map upper unit) of
                  None \<Rightarrow> None
                | Some k \<Rightarrow> int_of_fl (fl_mul_int x k)))
      | _ \<Rightarrow> None)"

fun sequence_err :: "('e + 'a) list \<Rightarrow> 'e + 'a list" where
  "sequence_err [] = Inr []"
| "sequence_err (x # xs) =
     (case x of
        Inl e \<Rightarrow> Inl e
      | Inr v \<Rightarrow> (case sequence_err xs of Inl e \<Rightarrow> Inl e | Inr vs \<Rightarrow> Inr (v # vs)))"

text \<open>The comprehension converts every piece; unpacking needs exactly three of them.\<close>

definition parse_dur :: "string \<Rightarrow> py_error + int" where
  "parse_dur hms =
     (case sequence_err (map py_int (split_on CHR '':'' hms [])) of
        Inl e \<Rightarrow> Inl e
      | Inr [h, m, s] \<Rightarrow> Inr (h * 3600 + m * 60 + s)
      | Inr _ \<Rightarrow> Inl ValueError)"

subsection \<open>Event records and \<^verbatim>\<open>parse_events\<close>\<close>

record row =
  event_time :: "string option"
  bytes_sent :: "int option"
  duration_s :: "int option"
  network_bottleneck_pct :: "int option"
  wan_cache_hit_pct :: "int option"
  retries :: "int option"
  message :: string

text \<open>\<^verbatim>\<open>int(m["name"])\<close>: a group that took no part is \<^verbatim>\<open>None\<close>, and \<^verbatim>\<open>int(None)\<close> raises.\<close>

definition int_grp :: "rmatch \<Rightarrow> string \<Rightarrow> py_error + int" where
  "int_grp m n = (case grp m n of None \<Rightarrow> Inl TypeError | Some t \<Rightarrow> py_int t)"

text \<open>
  The four blocks of the loop body. Each takes the row built so far and the \<^verbatim>\<open>hit\<close> flag,
  and returns them updated, or the exception that leaves the loop.
\<close>

definition step_bottle :: "string \<Rightarrow> row \<times> bool \<Rightarrow> py_error + row \<times> bool" where
  "step_bottle msg st =
     (case rx_search BOTTLE msg of
        None \<Rightarrow> Inr st
      | Some m \<Rightarrow>
          (case int_grp m ''pct'' of
             Inl e \<Rightarrow> Inl e
           | Inr v \<Rightarrow> Inr ((fst st)\<lparr>network_bottleneck_pct := Some v\<rparr>, True)))"

definition step_xfer :: "string \<Rightarrow> row \<times> bool \<Rightarrow> py_error + row \<times> bool" where
  "step_xfer msg st =
     (case rx_search XFER msg of
        None \<Rightarrow> Inr st
      | Some m \<Rightarrow>
          (let b = (case grp m ''bytes'' of None \<Rightarrow> None | Some t \<Rightarrow> parse_size t)
           in case (case grp m ''dur'' of None \<Rightarrow> Inl AttributeError | Some t \<Rightarrow> parse_dur t) of
                Inl e \<Rightarrow> Inl e
              | Inr d \<Rightarrow> Inr ((fst st)\<lparr>bytes_sent := b, duration_s := Some d\<rparr>, True)))"

definition step_wan :: "string \<Rightarrow> row \<times> bool \<Rightarrow> py_error + row \<times> bool" where
  "step_wan msg st =
     (case rx_search WAN msg of
        None \<Rightarrow> Inr st
      | Some m \<Rightarrow>
          (case int_grp m ''hit'' of
             Inl e \<Rightarrow> Inl e
           | Inr v \<Rightarrow> Inr ((fst st)\<lparr>wan_cache_hit_pct := Some v\<rparr>, True)))"

definition step_retry :: "string \<Rightarrow> row \<times> bool \<Rightarrow> py_error + row \<times> bool" where
  "step_retry msg st =
     (case rx_search RETRY msg of
        None \<Rightarrow> Inr st
      | Some m \<Rightarrow>
          (case int_grp m ''retries'' of
             Inl e \<Rightarrow> Inl e
           | Inr v \<Rightarrow> Inr ((fst st)\<lparr>retries := Some v\<rparr>, True)))"

definition bind_err :: "'e + 'a \<Rightarrow> ('a \<Rightarrow> 'e + 'b) \<Rightarrow> 'e + 'b" where
  "bind_err x f = (case x of Inl e \<Rightarrow> Inl e | Inr v \<Rightarrow> f v)"

definition new_row :: "string option \<Rightarrow> string \<Rightarrow> row" where
  "new_row ts_text msg =
     \<lparr>event_time = ts_text, bytes_sent = None, duration_s = None,
      network_bottleneck_pct = None, wan_cache_hit_pct = None, retries = None,
      message = msg\<rparr>"

text \<open>One pass of the loop body: the row to append, if any.\<close>

definition parse_line :: "string \<Rightarrow> py_error + row option" where
  "parse_line raw =
     (let (ts_text, msg) = parse_ts_prefix raw
      in bind_err (step_bottle msg (new_row ts_text msg, False)) (\<lambda>s1.
         bind_err (step_xfer msg s1) (\<lambda>s2.
         bind_err (step_wan msg s2) (\<lambda>s3.
         bind_err (step_retry msg s3) (\<lambda>(r, hit).
         Inr (if hit then Some r else None))))))"

fun parse_events_loop :: "string list \<Rightarrow> row list \<Rightarrow> py_error + row list" where
  "parse_events_loop [] out = Inr out"
| "parse_events_loop (raw # rest) out =
     (case parse_line raw of
        Inl e \<Rightarrow> Inl e
      | Inr None \<Rightarrow> parse_events_loop rest out
      | Inr (Some r) \<Rightarrow> parse_events_loop rest (out @ [r]))"

definition parse_events :: "string list \<Rightarrow> py_error + row list" where
  "parse_events lines = parse_events_loop lines []"

subsection \<open>Validate mode\<close>

text \<open>The test of the validate loop: does any of the four patterns match the message?\<close>

definition any_match :: "string \<Rightarrow> bool" where
  "any_match msg =
     (rx_search BOTTLE msg \<noteq> None \<or> rx_search XFER msg \<noteq> None \<or>
      rx_search WAN msg \<noteq> None \<or> rx_search RETRY msg \<noteq> None)"

text \<open>
  The loop of the validate branch of \<^verbatim>\<open>main\<close>. Its state is the lines printed so far, the
  counter \<^verbatim>\<open>shown\<close> and the number of lines taken from the line source. The limit is
  tested after a line is printed.
\<close>

fun validate_loop :: "string list \<Rightarrow> int \<Rightarrow> string list \<Rightarrow> int \<Rightarrow> nat \<Rightarrow> string list \<times> int \<times> nat" where
  "validate_loop [] limit printed shown consumed = (printed, shown, consumed)"
| "validate_loop (line # rest) limit printed shown consumed =
     (if any_match (snd (parse_ts_prefix line))
      then (if limit \<le> shown + 1 then (printed @ [line], shown + 1, Suc consumed)
            else validate_loop rest limit (printed @ [line]) (shown + 1) (Suc consumed))
      else validate_loop rest limit printed shown (Suc consumed))"

definition no_match_notice :: string where
  "no_match_notice =
     ''No recognizable lines found. Share a few sample lines to tune the patterns.''"

text \<open>What validate mode prints, and how many lines it read.\<close>

definition validate :: "string list \<Rightarrow> int \<Rightarrow> string list \<times> nat" where
  "validate lines limit =
     (let (printed, shown, consumed) = validate_loop lines limit [] 0 0
      in (if shown = 0 then printed @ [no_match_notice] else printed, consumed))"

subsection \<open>What a pattern denotes\<close>

text \<open>
  The texts a pattern can consume (the assertions \<open>Bol\<close> and \<open>Wb\<close> consume nothing), the
  texts a named group of the pattern can capture, and the groups that take part in every
  match. The matcher is sound for them (lemma \<open>matches_sound\<close>).
\<close>

fun lang :: "rx \<Rightarrow> string \<Rightarrow> bool" where
  "lang Eps w = (w = [])"
| "lang (Lit l) w = (map lower w = map lower l)"
| "lang (Cls p) w = (\<exists>c. w = [c] \<and> p c)"
| "lang (Rep p lo hi greedy) w =
     (lo \<le> length w \<and> (case hi of None \<Rightarrow> True | Some h \<Rightarrow> length w \<le> h) \<and> (\<forall>c\<in>set w. p c))"
| "lang (Opt r) w = (w = [] \<or> lang r w)"
| "lang (Alt a b) w = (lang a w \<or> lang b w)"
| "lang (Cat a b) w = (\<exists>u v. w = u @ v \<and> lang a u \<and> lang b v)"
| "lang (Grp n r) w = lang r w"
| "lang Bol w = (w = [])"
| "lang Wb w = (w = [])"

fun grp_lang :: "rx \<Rightarrow> string \<Rightarrow> string \<Rightarrow> bool" where
  "grp_lang (Grp m r) n v = ((m = n \<and> lang r v) \<or> grp_lang r n v)"
| "grp_lang (Opt r) n v = grp_lang r n v"
| "grp_lang (Alt a b) n v = (grp_lang a n v \<or> grp_lang b n v)"
| "grp_lang (Cat a b) n v = (grp_lang a n v \<or> grp_lang b n v)"
| "grp_lang _ n v = False"

fun grp_sure :: "rx \<Rightarrow> string \<Rightarrow> bool" where
  "grp_sure (Grp m r) n = (m = n \<or> grp_sure r n)"
| "grp_sure (Alt a b) n = (grp_sure a n \<and> grp_sure b n)"
| "grp_sure (Cat a b) n = (grp_sure a n \<or> grp_sure b n)"
| "grp_sure _ n = False"

text \<open>
  One way of matching: the text consumed is in the language of the pattern, and the groups
  added are groups of the pattern, with every sure group among them.
\<close>

definition sound_step :: "rx \<Rightarrow> mstate \<Rightarrow> mstate \<Rightarrow> bool" where
  "sound_step r st st' =
     (\<exists>w new. fst (snd st) = w @ fst (snd st') \<and> lang r w \<and> snd (snd st') = new @ snd (snd st) \<and>
        (\<forall>n v. (n, v) \<in> set new \<longrightarrow> grp_lang r n v) \<and>
        (\<forall>n. grp_sure r n \<longrightarrow> n \<in> fst ` set new))"

text \<open>The match that starts at position \<open>i\<close> of the text \<open>s\<close>, if the pattern matches there.\<close>

definition matches_at :: "rx \<Rightarrow> string \<Rightarrow> nat \<Rightarrow> rmatch option" where
  "matches_at r s i = match_at r i (if i = 0 then None else Some (s ! (i - 1))) (drop i s)"

subsection \<open>The record of a line\<close>

text \<open>
  The number a string of decimal digits denotes, in positional notation: the value of each
  digit times the power of ten of its place. It is stated apart from the conversion the
  program runs (\<open>int_of_digits\<close>), so that theorems can say what that conversion yields.
\<close>

definition digit_value :: "char \<Rightarrow> int" where
  "digit_value c = int (length (takeWhile (\<lambda>d. d \<noteq> c) ''0123456789''))"

fun decimal :: "string \<Rightarrow> int" where
  "decimal [] = 0"
| "decimal (d # ds) = digit_value d * 10 ^ length ds + decimal ds"

text \<open>The decimal value of a group of digits.\<close>

definition digits_of :: "rmatch \<Rightarrow> string \<Rightarrow> int option" where
  "digits_of m n = map_option decimal (grp m n)"

text \<open>
  The record \<^verbatim>\<open>parse_events\<close> builds for a line, in closed form: every field straight from
  the search it comes from. Lemma \<open>parse_line_eq\<close> proves that the loop body builds it.
\<close>

definition line_row :: "string \<Rightarrow> row" where
  "line_row raw =
     (let (ts_text, msg) = parse_ts_prefix raw
      in \<lparr>event_time = ts_text,
          bytes_sent = (case rx_search XFER msg of None \<Rightarrow> None
                        | Some m \<Rightarrow> (case grp m ''bytes'' of None \<Rightarrow> None | Some t \<Rightarrow> parse_size t)),
          duration_s = (case rx_search XFER msg of None \<Rightarrow> None
                        | Some m \<Rightarrow> (case grp m ''dur'' of None \<Rightarrow> None
                                     | Some t \<Rightarrow> (case parse_dur t of Inl e \<Rightarrow> None | Inr d \<Rightarrow> Some d))),
          network_bottleneck_pct = (case rx_search BOTTLE msg of None \<Rightarrow> None | Some m \<Rightarrow> digits_of m ''pct''),
          wan_cache_hit_pct = (case rx_search WAN msg of None \<Rightarrow> None | Some m \<Rightarrow> digits_of m ''hit''),
          retries = (case rx_search RETRY msg of None \<Rightarrow> None | Some m \<Rightarrow> digits_of m ''retries''),
          message = msg\<rparr>)"

subsection \<open>Auxiliary notions\<close>

text \<open>
  The retry count of a message is short enough for \<^verbatim>\<open>int\<close>: the retry pattern does not
  match, or the digits it captures are at most 4300.
\<close>

definition retry_fits :: "string \<Rightarrow> bool" where
  "retry_fits msg =
     (case rx_search RETRY msg of
        None \<Rightarrow> True
      | Some m \<Rightarrow> (case grp m ''retries'' of None \<Rightarrow> True
                   | Some v \<Rightarrow> length v \<le> int_max_str_digits))"

text \<open>The way of matching a backtracking matcher finds first, if the pattern matches.\<close>

definition first_match :: "rx \<Rightarrow> mstate \<Rightarrow> mstate option" where
  "first_match r st = (case matches r st of [] \<Rightarrow> None | y # _ \<Rightarrow> Some y)"


text \<open>How many characters a repetition over a class can take at most from a text.\<close>

definition run_len :: "(char \<Rightarrow> bool) \<Rightarrow> nat option \<Rightarrow> string \<Rightarrow> nat" where
  "run_len p hi s = length (takeWhile p (case hi of None \<Rightarrow> s | Some h \<Rightarrow> take h s))"

text \<open>
  A timestamp-shaped prefix of \<open>n\<close> characters, in the words of the specification: 19 to 26
  characters, each a digit, colon, period, hyphen or whitespace, followed by a whitespace
  character.
\<close>

definition ts_run :: "string \<Rightarrow> nat \<Rightarrow> bool" where
  "ts_run line n =
     (19 \<le> n \<and> n \<le> 26 \<and> n < length line \<and> list_all ts_class (take n line) \<and>
      is_space (line ! n))"

section \<open>Properties\<close>

subsection \<open>A transfer line whose size has no space before the unit\<close>

text \<open>
  Claim C9. There is a line on which the transfer pattern matches, because it allows no
  whitespace between the number and the unit, while \<^verbatim>\<open>parse_size\<close> needs two tokens
  separated by whitespace: the group \<^verbatim>\<open>bytes\<close> is \<open>5GB\<close>, \<^verbatim>\<open>parse_size\<close> returns
  null on it, and the record is emitted all the same, with \<open>bytes_sent\<close> null and
  \<open>duration_s\<close> set.
\<close>

theorem xfer_match_with_null_size:
  "map_option (\<lambda>m. grp m ''bytes'')
     (rx_search XFER ''Transferred: 5GB Duration: 00:00:10 Avg speed: 1 MB/s'') = Some (Some ''5GB'')
   \<and> parse_size ''5GB'' = None
   \<and> parse_events [''Transferred: 5GB Duration: 00:00:10 Avg speed: 1 MB/s''] =
       Inr [\<lparr>event_time = None, bytes_sent = None, duration_s = Some 10,
             network_bottleneck_pct = None, wan_cache_hit_pct = None, retries = None,
             message = ''Transferred: 5GB Duration: 00:00:10 Avg speed: 1 MB/s''\<rparr>]"
  by code_simp

subsection \<open>Numbers and splitting\<close>

lemma digit_not_space: "is_digit c \<Longrightarrow> \<not> is_space c"
  by (auto simp: is_digit_def is_space_def)

lemma split_on_no_sep: "sep \<notin> set a \<Longrightarrow> split_on sep a cur = [cur @ a]"
  by (induction a arbitrary: cur) auto

lemma split_on_sep: "sep \<notin> set a \<Longrightarrow> split_on sep (a @ sep # rest) cur = (cur @ a) # split_on sep rest []"
  by (induction a arbitrary: cur) auto

lemma us_digits_all: "ds \<noteq> [] \<Longrightarrow> \<forall>c\<in>set ds. is_digit c \<Longrightarrow> us_digits ds = Some ds"
proof (induction ds rule: us_digits.induct)
  case (3 c d cs)
  have "d \<noteq> CHR ''_''" using 3(4) by (auto simp: is_digit_def)
  then show ?case using 3 by auto
qed auto

lemma strip_no_space_ends: "s \<noteq> [] \<Longrightarrow> \<not> is_space (hd s) \<Longrightarrow> \<not> is_space (last s) \<Longrightarrow> strip s = s"
proof -
  assume a: "s \<noteq> []" "\<not> is_space (hd s)" "\<not> is_space (last s)"
  have 1: "dropWhile is_space s = s" using a by (cases s) auto
  have "rev s \<noteq> []" "\<not> is_space (hd (rev s))" using a by (auto simp: hd_rev)
  then have 2: "dropWhile is_space (rev s) = rev s" by (cases "rev s") auto
  show ?thesis by (simp add: strip_def 1 2)
qed

lemma py_int_of_digits:
  assumes "ds \<noteq> []" "\<forall>c\<in>set ds. is_digit c"
  shows "py_int ds = (if int_max_str_digits < length ds then Inl ValueError
                      else Inr (int_of_digits ds))"
proof -
  have h: "\<not> is_space (hd ds)" "\<not> is_space (last ds)"
    using assms hd_in_set[of ds] last_in_set[of ds] by (auto dest: digit_not_space)
  have s: "strip ds = ds" using assms(1) h by (rule strip_no_space_ends)
  obtain c r where cr: "ds = c # r" using assms(1) by (cases ds) auto
  have "is_digit c" using assms(2) cr by simp
  then have ns: "c \<noteq> CHR ''-''" "c \<noteq> CHR ''+''" by (auto simp: is_digit_def)
  have s': "strip (c # r) = c # r" using s cr by simp
  have u: "us_digits (c # r) = Some (c # r)" using us_digits_all[OF assms] cr by simp
  show ?thesis
    unfolding cr py_int_def s' using ns by (simp add: u)
qed

lemma digit_val_eq: "is_digit c \<Longrightarrow> digit_val c = digit_value c"
proof -
  assume "is_digit c"
  then consider "c = CHR ''0''" | "c = CHR ''1''" | "c = CHR ''2''" | "c = CHR ''3''"
    | "c = CHR ''4''" | "c = CHR ''5''" | "c = CHR ''6''" | "c = CHR ''7''"
    | "c = CHR ''8''" | "c = CHR ''9''"
    unfolding is_digit_def by auto
  then show ?thesis
    by cases (simp_all add: digit_val_def digit_value_def)
qed

lemma digit_value_nonneg: "0 \<le> digit_value c"
  by (simp add: digit_value_def)

lemma decimal_nonneg: "0 \<le> decimal ds"
  by (induction ds) (simp_all add: digit_value_nonneg)

lemma foldl_digits_decimal:
  "\<forall>c\<in>set ds. is_digit c \<Longrightarrow>
     foldl (\<lambda>a c. 10 * a + digit_val c) a ds = a * 10 ^ length ds + decimal ds"
proof (induction ds arbitrary: a)
  case Nil
  then show ?case by simp
next
  case (Cons c ds)
  have d: "digit_val c = digit_value c" using Cons.prems by (simp add: digit_val_eq)
  have "foldl (\<lambda>a c. 10 * a + digit_val c) (10 * a + digit_val c) ds =
          (10 * a + digit_val c) * 10 ^ length ds + decimal ds"
    using Cons by simp
  then show ?case by (simp add: d algebra_simps)
qed

lemma int_of_digits_decimal: "\<forall>c\<in>set ds. is_digit c \<Longrightarrow> int_of_digits ds = decimal ds"
  by (simp add: int_of_digits_def foldl_digits_decimal)

lemma py_int_digits:
  assumes "ds \<noteq> []" "\<forall>c\<in>set ds. is_digit c" "length ds \<le> int_max_str_digits"
  shows "py_int ds = Inr (decimal ds)"
  using py_int_of_digits[OF assms(1,2)] assms(3) int_of_digits_decimal[OF assms(2)] by simp

lemma py_int_long:
  assumes "\<forall>c\<in>set ds. is_digit c" "int_max_str_digits < length ds"
  shows "py_int ds = Inl ValueError"
proof -
  have "ds \<noteq> []" using assms(2) by auto
  from py_int_of_digits[OF this assms(1)] assms(2) show ?thesis by simp
qed

lemma colon_not_digit: "\<not> is_digit CHR '':''"
  by (simp add: is_digit_def)

lemma digits_no_colon: "\<forall>c\<in>set ds. is_digit c \<Longrightarrow> CHR '':'' \<notin> set ds"
  using colon_not_digit by blast

lemma parse_dur_digits:
  assumes "h \<noteq> []" "m \<noteq> []" "s \<noteq> []"
    and "\<forall>c\<in>set h. is_digit c" "\<forall>c\<in>set m. is_digit c" "\<forall>c\<in>set s. is_digit c"
    and "length h \<le> int_max_str_digits" "length m \<le> int_max_str_digits"
      "length s \<le> int_max_str_digits"
  shows "parse_dur (h @ '':'' @ m @ '':'' @ s) =
           Inr (decimal h * 3600 + decimal m * 60 + decimal s)
         \<and> 0 \<le> decimal h \<and> 0 \<le> decimal m \<and> 0 \<le> decimal s"
proof -
  have sp: "split_on CHR '':'' (h @ CHR '':'' # m @ CHR '':'' # s) [] = [h, m, s]"
    using digits_no_colon[OF assms(4)] digits_no_colon[OF assms(5)] digits_no_colon[OF assms(6)]
    by (simp add: split_on_sep split_on_no_sep)
  have e: "h @ '':'' @ m @ '':'' @ s = h @ CHR '':'' # m @ CHR '':'' # s" by simp
  have p: "py_int h = Inr (decimal h)" "py_int m = Inr (decimal m)" "py_int s = Inr (decimal s)"
    using py_int_digits[OF assms(1) assms(4) assms(7)] py_int_digits[OF assms(2) assms(5) assms(8)]
      py_int_digits[OF assms(3) assms(6) assms(9)] by blast+
  have "parse_dur (h @ '':'' @ m @ '':'' @ s) =
          Inr (decimal h * 3600 + decimal m * 60 + decimal s)"
    unfolding parse_dur_def e sp by (simp add: p)
  then show ?thesis
    using decimal_nonneg by blast
qed

subsection \<open>The matcher\<close>

lemma lit_match_sound:
  "lit_match l p s = Some (p', s') \<Longrightarrow> \<exists>w. s = w @ s' \<and> map lower w = map lower l"
proof (induction l p s rule: lit_match.induct)
  case (3 c cs prev x xs)
  then have eq: "lower x = lower c" and rec: "lit_match cs (Some x) xs = Some (p', s')"
    by (auto split: if_splits)
  from "3.IH"[OF eq rec] obtain w where "xs = w @ s'" "map lower w = map lower cs" by blast
  then have "x # xs = (x # w) @ s' \<and> map lower (x # w) = map lower (c # cs)" using eq by simp
  then show ?case by blast
qed auto

lemma runs_sound:
  "(p', s') \<in> set (drop lo (runs cls hi prev s)) \<Longrightarrow>
     \<exists>w. s = w @ s' \<and> lo \<le> length w \<and> (\<forall>c\<in>set w. cls c) \<and>
         (case hi of None \<Rightarrow> True | Some h \<Rightarrow> length w \<le> h)"
proof (induction s arbitrary: lo hi prev)
  case Nil
  then show ?case by (cases lo) (auto split: option.splits)
next
  case (Cons x xs)
  show ?case
  proof (cases lo)
    case 0
    with Cons.prems have "(p', s') = (prev, x # xs) \<or>
        (cls x \<and> hi \<noteq> Some 0 \<and> (p', s') \<in> set (drop 0 (runs cls (map_option (\<lambda>n. n - 1) hi) (Some x) xs)))"
      by (auto split: if_splits)
    then show ?thesis
    proof
      assume "(p', s') = (prev, x # xs)"
      then show ?thesis using 0 by (auto split: option.splits)
    next
      assume a: "cls x \<and> hi \<noteq> Some 0 \<and> (p', s') \<in> set (drop 0 (runs cls (map_option (\<lambda>n. n - 1) hi) (Some x) xs))"
      from Cons.IH[of 0 "map_option (\<lambda>n. n - 1) hi" "Some x"] a
      obtain w where w: "xs = w @ s'" "\<forall>c\<in>set w. cls c"
        "case map_option (\<lambda>n. n - 1) hi of None \<Rightarrow> True | Some h \<Rightarrow> length w \<le> h" by blast
      have "x # xs = (x # w) @ s' \<and> lo \<le> length (x # w) \<and> (\<forall>c\<in>set (x # w). cls c) \<and>
          (case hi of None \<Rightarrow> True | Some h \<Rightarrow> length (x # w) \<le> h)"
        using w a 0 by (auto split: option.splits)
      then show ?thesis by blast
    qed
  next
    case (Suc k)
    with Cons.prems have a: "cls x \<and> hi \<noteq> Some 0 \<and> (p', s') \<in> set (drop k (runs cls (map_option (\<lambda>n. n - 1) hi) (Some x) xs))"
      by (auto split: if_splits)
    from Cons.IH[of k "map_option (\<lambda>n. n - 1) hi" "Some x"] a
    obtain w where w: "xs = w @ s'" "k \<le> length w" "\<forall>c\<in>set w. cls c"
      "case map_option (\<lambda>n. n - 1) hi of None \<Rightarrow> True | Some h \<Rightarrow> length w \<le> h" by blast
    have "x # xs = (x # w) @ s' \<and> lo \<le> length (x # w) \<and> (\<forall>c\<in>set (x # w). cls c) \<and>
        (case hi of None \<Rightarrow> True | Some h \<Rightarrow> length (x # w) \<le> h)"
      using w a Suc by (auto split: option.splits)
    then show ?thesis by blast
  qed
qed

lemma sound_stepI:
  "s = w @ s' \<Longrightarrow> lang r w \<Longrightarrow> c' = new @ c \<Longrightarrow> (\<And>n v. (n, v) \<in> set new \<Longrightarrow> grp_lang r n v) \<Longrightarrow>
   (\<And>n. grp_sure r n \<Longrightarrow> n \<in> fst ` set new) \<Longrightarrow> sound_step r (p, s, c) (p', s', c')"
  unfolding sound_step_def by auto

lemma sound_stepE:
  assumes "sound_step r (p, s, c) (p', s', c')"
  obtains w new where "s = w @ s'" "lang r w" "c' = new @ c"
    "\<And>n v. (n, v) \<in> set new \<Longrightarrow> grp_lang r n v" "\<And>n. grp_sure r n \<Longrightarrow> n \<in> fst ` set new"
  using assms unfolding sound_step_def by auto

lemma matches_sound: "st' \<in> set (matches r st) \<Longrightarrow> sound_step r st st'"
proof (induction r arbitrary: st st')
  case Eps
  then show ?case by (cases st) (auto intro!: sound_stepI[where w="[]" and new="[]"])
next
  case (Lit l)
  obtain p s c where st: "st = (p, s, c)" by (cases st)
  obtain p' s' c' where st': "st' = (p', s', c')" by (cases st')
  from Lit have "lit_match l p s = Some (p', s')" "c' = c"
    by (auto simp: st st' split: option.splits)
  with lit_match_sound[of l p s p' s'] show ?case
    unfolding st st' by (auto intro!: sound_stepI[where new="[]"])
next
  case (Cls q)
  obtain p s c where st: "st = (p, s, c)" by (cases st)
  obtain p' s' c' where st': "st' = (p', s', c')" by (cases st')
  from Cls obtain x where "s = x # s'" "q x" "c' = c"
    by (auto simp: st st' split: list.splits if_splits)
  then show ?case unfolding st st' by (auto intro!: sound_stepI[where new="[]" and w="[x]"])
next
  case (Rep q lo hi g)
  obtain p s c where st: "st = (p, s, c)" by (cases st)
  obtain p' s' c' where st': "st' = (p', s', c')" by (cases st')
  from Rep have "(p', s') \<in> set (drop lo (runs q hi p s))" "c' = c"
    by (auto simp: st st' Let_def split: if_splits)
  with runs_sound[of p' s' lo q hi p s] show ?case
    unfolding st st' by (auto intro!: sound_stepI[where new="[]"])
next
  case (Opt r)
  obtain p s c where st: "st = (p, s, c)" by (cases st)
  obtain p' s' c' where st': "st' = (p', s', c')" by (cases st')
  from Opt.prems have "st' \<in> set (matches r st) \<or> st' = st" by auto
  then show ?case
  proof
    assume "st' \<in> set (matches r st)"
    from Opt.IH[OF this] show ?thesis unfolding st st'
      by (elim sound_stepE) (auto intro!: sound_stepI)
  next
    assume "st' = st"
    then show ?thesis unfolding st st' by (auto intro!: sound_stepI[where w="[]" and new="[]"])
  qed
next
  case (Alt a b)
  obtain p s c where st: "st = (p, s, c)" by (cases st)
  obtain p' s' c' where st': "st' = (p', s', c')" by (cases st')
  from Alt.prems have "st' \<in> set (matches a st) \<or> st' \<in> set (matches b st)" by auto
  then show ?case
  proof
    assume "st' \<in> set (matches a st)"
    from Alt.IH(1)[OF this] show ?thesis unfolding st st'
      by (elim sound_stepE) (auto intro!: sound_stepI)
  next
    assume "st' \<in> set (matches b st)"
    from Alt.IH(2)[OF this] show ?thesis unfolding st st'
      by (elim sound_stepE) (auto intro!: sound_stepI)
  qed
next
  case (Cat a b)
  obtain p s c where st: "st = (p, s, c)" by (cases st)
  obtain p' s' c' where st': "st' = (p', s', c')" by (cases st')
  from Cat.prems obtain mid where mid: "mid \<in> set (matches a st)" "st' \<in> set (matches b mid)" by auto
  obtain pm sm cm where m: "mid = (pm, sm, cm)" by (cases mid)
  from Cat.IH(1)[OF mid(1)] obtain u n1 where 1: "s = u @ sm" "lang a u" "cm = n1 @ c"
    "\<forall>n v. (n, v) \<in> set n1 \<longrightarrow> grp_lang a n v" "\<forall>n. grp_sure a n \<longrightarrow> n \<in> fst ` set n1"
    unfolding st m sound_step_def by auto
  from Cat.IH(2)[OF mid(2)] obtain v n2 where 2: "sm = v @ s'" "lang b v" "c' = n2 @ cm"
    "\<forall>n w. (n, w) \<in> set n2 \<longrightarrow> grp_lang b n w" "\<forall>n. grp_sure b n \<longrightarrow> n \<in> fst ` set n2"
    unfolding st' m sound_step_def by auto
  show ?case unfolding st st'
  proof (rule sound_stepI[where w="u @ v" and new="n2 @ n1"])
    show "s = (u @ v) @ s'" using 1(1) 2(1) by simp
    show "lang (Cat a b) (u @ v)" using 1(2) 2(2) by auto
    show "c' = (n2 @ n1) @ c" using 1(3) 2(3) by simp
    show "\<And>n w. (n, w) \<in> set (n2 @ n1) \<Longrightarrow> grp_lang (Cat a b) n w" using 1(4) 2(4) by auto
    show "\<And>n. grp_sure (Cat a b) n \<Longrightarrow> n \<in> fst ` set (n2 @ n1)" using 1(5) 2(5) by auto
  qed
next
  case (Grp n r)
  obtain p s c where st: "st = (p, s, c)" by (cases st)
  obtain p' s' c' where st': "st' = (p', s', c')" by (cases st')
  from Grp.prems obtain c'' where in_r: "(p', s', c'') \<in> set (matches r (p, s, c))"
    and c': "c' = (n, take (length s - length s') s) # c''"
    by (auto simp: st st')
  from Grp.IH[OF in_r] obtain w n1 where 1: "s = w @ s'" "lang r w" "c'' = n1 @ c"
    "\<forall>m v. (m, v) \<in> set n1 \<longrightarrow> grp_lang r m v" "\<forall>m. grp_sure r m \<longrightarrow> m \<in> fst ` set n1"
    unfolding sound_step_def by auto
  have tk: "take (length s - length s') s = w" using 1(1) by simp
  show ?case unfolding st st'
  proof (rule sound_stepI[where w=w and new="(n, w) # n1"])
    show "s = w @ s'" by (rule 1(1))
    show "lang (Grp n r) w" using 1(2) by simp
    show "c' = ((n, w) # n1) @ c" using c' tk 1(3) by simp
    show "\<And>m v. (m, v) \<in> set ((n, w) # n1) \<Longrightarrow> grp_lang (Grp n r) m v" using 1(2) 1(4) by auto
    show "\<And>m. grp_sure (Grp n r) m \<Longrightarrow> m \<in> fst ` set ((n, w) # n1)" using 1(5) by auto
  qed
next
  case Bol
  then show ?case by (cases st) (auto intro!: sound_stepI[where w="[]" and new="[]"] split: if_splits)
next
  case Wb
  then show ?case by (cases st) (auto intro!: sound_stepI[where w="[]" and new="[]"] split: if_splits)
qed

lemma search_from_leftmost:
  "search_from r (length pre) (if pre = [] then None else Some (last pre)) t = Some m \<Longrightarrow>
     length pre \<le> m_start m \<and> m_start m \<le> length (pre @ t) \<and>
     matches_at r (pre @ t) (m_start m) = Some m \<and>
     (\<forall>j. length pre \<le> j \<and> j < m_start m \<longrightarrow> matches_at r (pre @ t) j = None)"
proof (induction t arbitrary: pre)
  case Nil
  then have ma: "match_at r (length pre) (if pre = [] then None else Some (last pre)) [] = Some m"
    by simp
  then have st: "m_start m = length pre"
    by (auto simp: match_at_def split: list.splits)
  have "matches_at r (pre @ []) (length pre) = Some m"
    using ma by (cases "pre = []") (auto simp: matches_at_def last_conv_nth)
  then show ?case using st by auto
next
  case (Cons c cs)
  have here: "matches_at r (pre @ c # cs) (length pre) =
        match_at r (length pre) (if pre = [] then None else Some (last pre)) (c # cs)"
    by (cases "pre = []") (auto simp: matches_at_def last_conv_nth nth_append)
  show ?case
  proof (cases "match_at r (length pre) (if pre = [] then None else Some (last pre)) (c # cs)")
    case (Some m')
    with Cons.prems have mm: "m' = m" by simp
    from Some have st: "m_start m' = length pre"
      by (auto simp: match_at_def split: list.splits)
    show ?thesis using Some here mm st by auto
  next
    case None
    with Cons.prems have "search_from r (Suc (length pre)) (Some c) cs = Some m" by simp
    then have "search_from r (length (pre @ [c])) (if pre @ [c] = [] then None else Some (last (pre @ [c]))) cs = Some m"
      by simp
    from Cons.IH[OF this] have ih: "length (pre @ [c]) \<le> m_start m" "m_start m \<le> length ((pre @ [c]) @ cs)"
      "matches_at r ((pre @ [c]) @ cs) (m_start m) = Some m"
      "\<forall>j. length (pre @ [c]) \<le> j \<and> j < m_start m \<longrightarrow> matches_at r ((pre @ [c]) @ cs) j = None"
      by blast+
    have "\<forall>j. length pre \<le> j \<and> j < m_start m \<longrightarrow> matches_at r (pre @ c # cs) j = None"
    proof (intro allI impI)
      fix j assume j: "length pre \<le> j \<and> j < m_start m"
      show "matches_at r (pre @ c # cs) j = None"
      proof (cases "j = length pre")
        case True
        then show ?thesis using here None by simp
      next
        case False
        then have "length (pre @ [c]) \<le> j" using j by simp
        then show ?thesis using ih(4) j by simp
      qed
    qed
    then show ?thesis using ih by simp
  qed
qed


lemma rx_search_leftmost:
  assumes "rx_search r s = Some m"
  shows "m_start m \<le> length s \<and> matches_at r s (m_start m) = Some m \<and>
         (\<forall>j < m_start m. matches_at r s j = None)"
  using search_from_leftmost[of r "[]" s m] assms by (simp add: rx_search_def)


lemma match_at_sound:
  assumes "match_at r i p s = Some m"
  shows "\<exists>p' s'. sound_step r (p, s, []) (p', s', groups m) \<and> m_start m = i
           \<and> m_end m = i + (length s - length s')"
proof -
  from assms obtain p' s' c' rest where ms: "matches r (p, s, []) = (p', s', c') # rest"
    and m: "m = \<lparr>m_start = i, m_end = i + (length s - length s'), groups = c'\<rparr>"
    by (auto simp: match_at_def split: list.splits)
  have "(p', s', c') \<in> set (matches r (p, s, []))" using ms by simp
  from matches_sound[OF this] show ?thesis using m by auto
qed

lemma search_group:
  assumes "rx_search r s = Some m" "grp_sure r n"
  shows "\<exists>v. grp m n = Some v \<and> grp_lang r n v"
proof -
  from rx_search_leftmost[OF assms(1)] have "matches_at r s (m_start m) = Some m" by simp
  then obtain i p t where "match_at r i p t = Some m" unfolding matches_at_def by blast
  from match_at_sound[OF this] obtain p' s' where ss: "sound_step r (p, t, []) (p', s', groups m)"
    by blast
  then obtain new where new: "groups m = new" "\<forall>n v. (n, v) \<in> set new \<longrightarrow> grp_lang r n v"
    "\<forall>n. grp_sure r n \<longrightarrow> n \<in> fst ` set new"
    unfolding sound_step_def by auto
  from new(3) assms(2) have "n \<in> fst ` set new" by blast
  then obtain v where v: "map_of new n = Some v"
    by (metis domD dom_map_of_conv_image_fst)
  then have "(n, v) \<in> set new" by (rule map_of_SomeD)
  with new(2) have "grp_lang r n v" by blast
  then show ?thesis using v new(1) by (simp add: grp_def)
qed

subsection \<open>Groups of the patterns\<close>

lemma lower_colon: "lower x = lower CHR '':'' \<Longrightarrow> x = CHR '':''"
  by (simp add: lower_def split: if_splits)

lemma lang_colon: "lang (Lit '':'') w \<Longrightarrow> w = '':''"
proof -
  assume "lang (Lit '':'') w"
  then have m: "map lower w = [lower CHR '':'']" by simp
  then obtain x where w: "w = [x]" by (cases w) auto
  with m have "lower x = lower CHR '':''" by simp
  then show ?thesis using w lower_colon by simp
qed

lemma bottle_group:
  assumes "rx_search BOTTLE s = Some m"
  shows "\<exists>v. grp m ''pct'' = Some v \<and> v \<noteq> [] \<and> (\<forall>c\<in>set v. is_digit c) \<and> length v \<le> 3"
proof -
  have "grp_sure BOTTLE ''pct''" by (simp add: BOTTLE_def)
  from search_group[OF assms this] obtain v where v: "grp m ''pct'' = Some v" "grp_lang BOTTLE ''pct'' v"
    by blast
  from v(2) have "lang (Rep is_digit 1 (Some 3) True) v" by (simp add: BOTTLE_def)
  then have "v \<noteq> [] \<and> (\<forall>c\<in>set v. is_digit c) \<and> length v \<le> 3" by auto
  with v(1) show ?thesis by blast
qed

lemma wan_group:
  assumes "rx_search WAN s = Some m"
  shows "\<exists>v. grp m ''hit'' = Some v \<and> v \<noteq> [] \<and> (\<forall>c\<in>set v. is_digit c) \<and> length v \<le> 3"
proof -
  have "grp_sure WAN ''hit''" by (simp add: WAN_def)
  from search_group[OF assms this] obtain v where v: "grp m ''hit'' = Some v" "grp_lang WAN ''hit'' v"
    by blast
  from v(2) have "lang (Rep is_digit 1 (Some 3) True) v" by (simp add: WAN_def)
  then have "v \<noteq> [] \<and> (\<forall>c\<in>set v. is_digit c) \<and> length v \<le> 3" by auto
  with v(1) show ?thesis by blast
qed

lemma retry_group:
  assumes "rx_search RETRY s = Some m"
  shows "\<exists>v. grp m ''retries'' = Some v \<and> v \<noteq> [] \<and> (\<forall>c\<in>set v. is_digit c)"
proof -
  have "grp_sure RETRY ''retries''" by (simp add: RETRY_def)
  from search_group[OF assms this] obtain v where v: "grp m ''retries'' = Some v" "grp_lang RETRY ''retries'' v"
    by blast
  from v(2) have "lang (Rep is_digit 1 None True) v" by (simp add: RETRY_def)
  then have "v \<noteq> [] \<and> (\<forall>c\<in>set v. is_digit c)" by auto
  with v(1) show ?thesis by blast
qed

lemma lang_CatD: "lang (Cat a b) w \<Longrightarrow> \<exists>u v. w = u @ v \<and> lang a u \<and> lang b v"
  by simp

lemma lang_dur:
  assumes "lang (seq [Rep is_digit 2 (Some 2) True, Lit '':'', Rep is_digit 2 (Some 2) True,
                 Lit '':'', Rep is_digit 2 (Some 2) True]) d"
  shows "\<exists>h mi s. d = h @ '':'' @ mi @ '':'' @ s \<and> length h = 2 \<and> length mi = 2 \<and> length s = 2 \<and>
           (\<forall>c\<in>set h. is_digit c) \<and> (\<forall>c\<in>set mi. is_digit c) \<and> (\<forall>c\<in>set s. is_digit c)"
proof -
  from assms have "lang (Cat (Rep is_digit 2 (Some 2) True) (Cat (Lit '':'')
      (Cat (Rep is_digit 2 (Some 2) True) (Cat (Lit '':'') (Rep is_digit 2 (Some 2) True))))) d"
    by (simp only: seq.simps)
  from lang_CatD[OF this] obtain h r1 where 1: "d = h @ r1" "lang (Rep is_digit 2 (Some 2) True) h"
    "lang (Cat (Lit '':'') (Cat (Rep is_digit 2 (Some 2) True)
       (Cat (Lit '':'') (Rep is_digit 2 (Some 2) True)))) r1"
    by blast
  from lang_CatD[OF 1(3)] obtain c1 r2 where 2: "r1 = c1 @ r2" "lang (Lit '':'') c1"
    "lang (Cat (Rep is_digit 2 (Some 2) True) (Cat (Lit '':'') (Rep is_digit 2 (Some 2) True))) r2"
    by blast
  from lang_CatD[OF 2(3)] obtain mi r3 where 3: "r2 = mi @ r3" "lang (Rep is_digit 2 (Some 2) True) mi"
    "lang (Cat (Lit '':'') (Rep is_digit 2 (Some 2) True)) r3"
    by blast
  from lang_CatD[OF 3(3)] obtain c2 s where 4: "r3 = c2 @ s" "lang (Lit '':'') c2"
    "lang (Rep is_digit 2 (Some 2) True) s"
    by blast
  have c: "c1 = '':''" "c2 = '':''" using 2(2) 4(2) lang_colon by blast+
  have "d = h @ '':'' @ mi @ '':'' @ s" using 1(1) 2(1) 3(1) 4(1) c by simp
  moreover have "length h = 2 \<and> (\<forall>c\<in>set h. is_digit c)" using 1(2) by auto
  moreover have "length mi = 2 \<and> (\<forall>c\<in>set mi. is_digit c)" using 3(2) by auto
  moreover have "length s = 2 \<and> (\<forall>c\<in>set s. is_digit c)" using 4(3) by auto
  ultimately show ?thesis by blast
qed

lemma xfer_groups:
  assumes "rx_search XFER s = Some m"
  shows "\<exists>b d. grp m ''bytes'' = Some b \<and> grp m ''dur'' = Some d \<and>
           (\<exists>h mi s. d = h @ '':'' @ mi @ '':'' @ s \<and> length h = 2 \<and> length mi = 2 \<and> length s = 2 \<and>
              (\<forall>c\<in>set h. is_digit c) \<and> (\<forall>c\<in>set mi. is_digit c) \<and> (\<forall>c\<in>set s. is_digit c))"
proof -
  have "grp_sure XFER ''bytes''" "grp_sure XFER ''dur''" by (simp_all add: XFER_def)
  from search_group[OF assms this(1)] search_group[OF assms this(2)]
  obtain b d where bd: "grp m ''bytes'' = Some b" "grp m ''dur'' = Some d" "grp_lang XFER ''dur'' d"
    by blast
  from bd(3) have "lang (seq [Rep is_digit 2 (Some 2) True, Lit '':'', Rep is_digit 2 (Some 2) True,
                 Lit '':'', Rep is_digit 2 (Some 2) True]) d"
    by (simp add: XFER_def size_unit_def speed_unit_def)
  from lang_dur[OF this] bd(1,2) show ?thesis by blast
qed

subsection \<open>The loop body\<close>

lemma int_grp_digits:
  assumes "grp m n = Some v" "v \<noteq> []" "\<forall>c\<in>set v. is_digit c" "length v \<le> int_max_str_digits"
  shows "int_grp m n = Inr (decimal v)" "digits_of m n = Some (decimal v)"
  using assms py_int_digits[OF assms(2,3,4)] by (simp_all add: int_grp_def digits_of_def)

lemma step_bottle_eq:
  "step_bottle msg (r, h) =
     Inr (case rx_search BOTTLE msg of None \<Rightarrow> (r, h)
          | Some m \<Rightarrow> (r\<lparr>network_bottleneck_pct := digits_of m ''pct''\<rparr>, True))"
proof (cases "rx_search BOTTLE msg")
  case None
  then show ?thesis by (simp add: step_bottle_def)
next
  case (Some m)
  from bottle_group[OF Some] obtain v where v: "grp m ''pct'' = Some v" "v \<noteq> []"
    "\<forall>c\<in>set v. is_digit c" "length v \<le> 3"
    by blast
  have "length v \<le> int_max_str_digits" using v(4) by (simp add: int_max_str_digits_def)
  from int_grp_digits[OF v(1-3) this] show ?thesis using Some by (simp add: step_bottle_def)
qed

lemma step_wan_eq:
  "step_wan msg (r, h) =
     Inr (case rx_search WAN msg of None \<Rightarrow> (r, h)
          | Some m \<Rightarrow> (r\<lparr>wan_cache_hit_pct := digits_of m ''hit''\<rparr>, True))"
proof (cases "rx_search WAN msg")
  case None
  then show ?thesis by (simp add: step_wan_def)
next
  case (Some m)
  from wan_group[OF Some] obtain v where v: "grp m ''hit'' = Some v" "v \<noteq> []"
    "\<forall>c\<in>set v. is_digit c" "length v \<le> 3"
    by blast
  have "length v \<le> int_max_str_digits" using v(4) by (simp add: int_max_str_digits_def)
  from int_grp_digits[OF v(1-3) this] show ?thesis using Some by (simp add: step_wan_def)
qed

lemma step_retry_eq:
  assumes "retry_fits msg"
  shows "step_retry msg (r, h) =
     Inr (case rx_search RETRY msg of None \<Rightarrow> (r, h)
          | Some m \<Rightarrow> (r\<lparr>retries := digits_of m ''retries''\<rparr>, True))"
proof (cases "rx_search RETRY msg")
  case None
  then show ?thesis by (simp add: step_retry_def)
next
  case (Some m)
  from retry_group[OF Some] obtain v where v: "grp m ''retries'' = Some v" "v \<noteq> []"
    "\<forall>c\<in>set v. is_digit c" by blast
  have "length v \<le> int_max_str_digits" using assms Some v(1) by (simp add: retry_fits_def)
  from int_grp_digits[OF v this] show ?thesis using Some by (simp add: step_retry_def)
qed

lemma step_retry_raises:
  assumes "\<not> retry_fits msg"
  shows "step_retry msg st = Inl ValueError"
proof -
  from assms obtain m v where m: "rx_search RETRY msg = Some m" "grp m ''retries'' = Some v"
    "int_max_str_digits < length v"
    by (auto simp: retry_fits_def split: option.splits)
  from retry_group[OF m(1)] m(2) have "\<forall>c\<in>set v. is_digit c" by auto
  from py_int_long[OF this m(3)] show ?thesis using m by (simp add: step_retry_def int_grp_def)
qed

lemma xfer_dur_ok:
  assumes "rx_search XFER msg = Some m"
  shows "\<exists>t d. grp m ''dur'' = Some t \<and> parse_dur t = Inr d \<and> 0 \<le> d"
proof -
  from xfer_groups[OF assms] obtain t h mi s where t: "grp m ''dur'' = Some t"
    "t = h @ '':'' @ mi @ '':'' @ s" "length h = 2" "length mi = 2" "length s = 2"
    "\<forall>c\<in>set h. is_digit c" "\<forall>c\<in>set mi. is_digit c" "\<forall>c\<in>set s. is_digit c"
    by blast
  have ne: "h \<noteq> []" "mi \<noteq> []" "s \<noteq> []" using t(3-5) by auto
  have le: "length h \<le> int_max_str_digits" "length mi \<le> int_max_str_digits"
    "length s \<le> int_max_str_digits" using t(3-5) by (simp_all add: int_max_str_digits_def)
  from parse_dur_digits[OF ne t(6-8) le] have
    "parse_dur t = Inr (decimal h * 3600 + decimal mi * 60 + decimal s)"
    "0 \<le> decimal h * 3600 + decimal mi * 60 + decimal s"
    using t(2) by auto
  with t(1) show ?thesis by blast
qed

lemma step_xfer_eq:
  "step_xfer msg (r, h) =
     Inr (case rx_search XFER msg of None \<Rightarrow> (r, h)
          | Some m \<Rightarrow>
              (r\<lparr>bytes_sent := (case grp m ''bytes'' of None \<Rightarrow> None | Some t \<Rightarrow> parse_size t),
                 duration_s := (case grp m ''dur'' of None \<Rightarrow> None
                                | Some t \<Rightarrow> (case parse_dur t of Inl e \<Rightarrow> None | Inr d \<Rightarrow> Some d))\<rparr>, True))"
proof (cases "rx_search XFER msg")
  case None
  then show ?thesis by (simp add: step_xfer_def)
next
  case (Some m)
  from xfer_dur_ok[OF Some] obtain t d where "grp m ''dur'' = Some t" "parse_dur t = Inr d" by blast
  then show ?thesis using Some by (simp add: step_xfer_def)
qed

lemma parse_line_eq:
  assumes "retry_fits (snd (parse_ts_prefix raw))"
  shows "parse_line raw =
     Inr (if any_match (snd (parse_ts_prefix raw)) then Some (line_row raw) else None)"
proof -
  obtain ts msg where p: "parse_ts_prefix raw = (ts, msg)" by (cases "parse_ts_prefix raw")
  have f: "retry_fits msg" using assms p by simp
  show ?thesis
    unfolding parse_line_def line_row_def p
    by (simp add: bind_err_def step_bottle_eq step_xfer_eq step_wan_eq step_retry_eq[OF f]
          new_row_def any_match_def split: option.splits)
qed

lemma parse_line_raises:
  assumes "\<not> retry_fits (snd (parse_ts_prefix raw))"
  shows "parse_line raw = Inl ValueError"
proof -
  obtain ts msg where p: "parse_ts_prefix raw = (ts, msg)" by (cases "parse_ts_prefix raw")
  have f: "\<not> retry_fits msg" using assms p by simp
  show ?thesis
    unfolding parse_line_def p
    by (simp add: bind_err_def step_bottle_eq step_xfer_eq step_wan_eq step_retry_raises[OF f]
          split: option.splits)
qed


lemma parse_events_loop_raises:
  "\<exists>raw\<in>set lines. \<not> retry_fits (snd (parse_ts_prefix raw)) \<Longrightarrow>
   parse_events_loop lines out = Inl ValueError"
proof (induction lines arbitrary: out)
  case Nil
  then show ?case by simp
next
  case (Cons raw lines)
  show ?case
  proof (cases "retry_fits (snd (parse_ts_prefix raw))")
    case True
    then have "\<exists>raw\<in>set lines. \<not> retry_fits (snd (parse_ts_prefix raw))" using Cons.prems by auto
    from Cons.IH[OF this] show ?thesis using True by (simp add: parse_line_eq)
  next
    case False
    then show ?thesis by (simp add: parse_line_raises)
  qed
qed

subsection \<open>First matches\<close>



lemma first_Alt2: "first_match a st = None \<Longrightarrow> first_match (Alt a b) st = first_match b st"
  by (auto simp: first_match_def split: list.splits)

lemma first_Opt1: "first_match r st = Some y \<Longrightarrow> first_match (Opt r) st = Some y"
  by (auto simp: first_match_def split: list.splits)






lemma first_Bol:
  "first_match Bol (p, s, c) = (if p = None then Some (p, s, c) else None)"
  by (simp add: first_match_def)

lemma match_at_first:
  "match_at r i p s =
     map_option (\<lambda>(p', s', cs). \<lparr>m_start = i, m_end = i + (length s - length s'), groups = cs\<rparr>)
       (first_match r (p, s, []))"
  by (auto simp: match_at_def first_match_def split: list.splits)

lemma runs_whole:
  assumes "\<forall>c\<in>set w. cls c" "s' = [] \<or> \<not> cls (hd s')"
  shows "length (runs cls None p (w @ s')) = Suc (length w) \<and>
         last (runs cls None p (w @ s')) = (if w = [] then p else Some (last w), s')"
  using assms(1)
proof (induction w arbitrary: p)
  case Nil
  show ?case using assms(2) by (cases s') auto
next
  case (Cons c w)
  have c: "cls c" using Cons.prems by simp
  have ih: "length (runs cls None (Some c) (w @ s')) = Suc (length w) \<and>
         last (runs cls None (Some c) (w @ s')) = (if w = [] then Some c else Some (last w), s')"
    using Cons.IH[of "Some c"] Cons.prems by simp
  then have ne: "runs cls None (Some c) (w @ s') \<noteq> []" by auto
  show ?case using c ih ne by simp
qed

lemma first_Rep_greedy:
  assumes "\<forall>c\<in>set w. cls c" "s' = [] \<or> \<not> cls (hd s')" "lo \<le> length w"
  shows "first_match (Rep cls lo None True) (p, w @ s', c) =
           Some (if w = [] then p else Some (last w), s', c)"
proof -
  let ?rs = "runs cls None p (w @ s')"
  from runs_whole[OF assms(1,2), of p] have l: "length ?rs = Suc (length w)"
    and la: "last ?rs = (if w = [] then p else Some (last w), s')" by blast+
  have ne: "drop lo ?rs \<noteq> []" using l assms(3) by simp
  have "last (drop lo ?rs) = last ?rs" using l assms(3) by (simp add: last_drop)
  then have "rev (drop lo ?rs) = last ?rs # rev (butlast (drop lo ?rs))"
    using ne by (metis append_butlast_last_id rev.simps(2) rev_append rev_rev_ident rev_singleton_conv append_Cons append_Nil)
  then have r: "rev (drop lo ?rs) = (if w = [] then p else Some (last w), s') # rev (butlast (drop lo ?rs))"
    using la by simp
  have "matches (Rep cls lo None True) (p, w @ s', c) =
          map (\<lambda>(prev', rest'). (prev', rest', c)) (rev (drop lo ?rs))"
    by (simp only: matches.simps Let_def if_True)
  then show ?thesis unfolding first_match_def r by simp
qed

subsection \<open>Lines with a long retry count\<close>













subsection \<open>Durations\<close>




subsection \<open>The records of \<^verbatim>\<open>parse_events\<close>\<close>




subsection \<open>A retry count and a bottleneck on one line\<close>




subsection \<open>The leftmost occurrence\<close>





subsection \<open>Validate mode\<close>

text \<open>
  With a limit of at least one, the loop prints the first \<open>min limit M\<close> matching lines,
  where \<open>M\<close> is the number of matching lines, raw and in input order.
\<close>

lemma validate_loop_prints:
  assumes "0 < limit" "shown < limit" "int (length printed) = shown"
  shows "fst (validate_loop lines limit printed shown consumed) =
           printed @ take (nat (limit - shown))
             (filter (\<lambda>l. any_match (snd (parse_ts_prefix l))) lines)"
  using assms
proof (induction lines limit printed shown consumed rule: validate_loop.induct)
  case (1 limit printed shown consumed)
  then show ?case by simp
next
  case (2 line rest limit printed shown consumed)
  show ?case
  proof (cases "any_match (snd (parse_ts_prefix line))")
    case False
    then show ?thesis using "2.IH"(2)[OF False] "2.prems" by simp
  next
    case True
    show ?thesis
    proof (cases "limit \<le> shown + 1")
      case l: True
      then have "nat (limit - shown) = 1" using "2.prems" by simp
      then show ?thesis using True l by simp
    next
      case l: False
      then have n: "nat (limit - shown) = Suc (nat (limit - (shown + 1)))" by simp
      have "fst (validate_loop rest limit (printed @ [line]) (shown + 1) (Suc consumed)) =
              (printed @ [line]) @ take (nat (limit - (shown + 1)))
                (filter (\<lambda>l. any_match (snd (parse_ts_prefix l))) rest)"
        using "2.IH"(1)[OF True l] "2.prems" l by simp
      then show ?thesis using True l unfolding n by simp
    qed
  qed
qed

text \<open>
  Claim C4. With a limit of zero and two matching lines, validate mode prints one line,
  not \<open>min 0 2 = 0\<close> lines: the limit is tested only after a line has been printed. The
  second component is the number of lines read.
\<close>

theorem validate_limit_zero_prints_one:
  "validate [''retry 1'', ''retry 2''] 0 = ([''retry 1''], 1)"
  by code_simp

subsection \<open>The timestamp prefix\<close>

lemma first_Cat_find:
  "first_match (Cat a b) st =
     (case List.find (\<lambda>x. matches b x \<noteq> []) (matches a st) of
        None \<Rightarrow> None | Some x \<Rightarrow> first_match b x)"
proof -
  have "(case concat (map (matches b) xs) of [] \<Rightarrow> None | y # _ \<Rightarrow> Some y) =
        (case List.find (\<lambda>x. matches b x \<noteq> []) xs of
           None \<Rightarrow> None | Some x \<Rightarrow> first_match b x)" for xs
    by (induction xs) (auto simp: first_match_def split: list.splits)
  then show ?thesis by (simp add: first_match_def)
qed

lemma run_len_step:
  "p c \<Longrightarrow> hi \<noteq> Some 0 \<Longrightarrow>
   run_len p hi (c # cs) = Suc (run_len p (map_option (\<lambda>n. n - 1) hi) cs)"
  by (cases hi) (auto simp: run_len_def take_Cons split: nat.splits)

lemma run_len_stop: "\<not> (p c \<and> hi \<noteq> Some 0) \<Longrightarrow> run_len p hi (c # cs) = 0"
  by (cases hi) (auto simp: run_len_def take_Cons split: nat.splits)

lemma runs_eq:
  "runs p hi prev s =
     map (\<lambda>k. (if k = 0 then prev else Some (s ! (k - 1)), drop k s)) [0..<Suc (run_len p hi s)]"
proof (induction s arbitrary: hi prev)
  case Nil
  show ?case by (cases hi) (simp_all add: run_len_def)
next
  case (Cons c cs)
  show ?case
  proof (cases "p c \<and> hi \<noteq> Some 0")
    case False
    then show ?thesis using run_len_stop[of p c hi cs] by auto
  next
    case True
    let ?K = "run_len p (map_option (\<lambda>n. n - 1) hi) cs"
    have l: "run_len p hi (c # cs) = Suc ?K" using True run_len_step by blast
    define f where "f = (\<lambda>k. (if k = 0 then prev else Some ((c # cs) ! (k - 1)), drop k (c # cs)))"
    have "runs p hi prev (c # cs) =
            (prev, c # cs) # runs p (map_option (\<lambda>n. n - 1) hi) (Some c) cs"
      using True by simp
    also have "\<dots> = (prev, c # cs) #
        map (\<lambda>k. (if k = 0 then Some c else Some (cs ! (k - 1)), drop k cs)) [0..<Suc ?K]"
      by (simp only: Cons.IH)
    also have "map (\<lambda>k. (if k = 0 then Some c else Some (cs ! (k - 1)), drop k cs)) [0..<Suc ?K] =
        map (\<lambda>k. f (Suc k)) [0..<Suc ?K]"
      by (rule map_cong) (auto simp: nth_Cons' f_def)
    also have "(prev, c # cs) = f 0" by (simp add: f_def)
    also have "f 0 # map (\<lambda>k. f (Suc k)) [0..<Suc ?K] = map f [0..<Suc (Suc ?K)]"
      by (rule map_upt_Suc[symmetric])
    finally show ?thesis unfolding l f_def .
  qed
qed

lemma run_len_le: "run_len p (Some h) s \<le> h" "run_len p hi s \<le> length s"
proof -
  have "length (takeWhile p (take h s)) \<le> length (take h s)" by (rule length_takeWhile_le)
  then show "run_len p (Some h) s \<le> h" by (simp add: run_len_def)
  show "run_len p hi s \<le> length s"
  proof (cases hi)
    case None
    then show ?thesis by (simp add: run_len_def length_takeWhile_le)
  next
    case (Some h)
    have "length (takeWhile p (take h s)) \<le> length (take h s)" by (rule length_takeWhile_le)
    then show ?thesis using Some by (simp add: run_len_def)
  qed
qed

lemma run_len_all:
  "n \<le> run_len p (Some h) s \<longleftrightarrow> n \<le> h \<and> n \<le> length s \<and> list_all p (take n s)"
proof
  assume a: "n \<le> run_len p (Some h) s"
  let ?w = "takeWhile p (take h s)"
  have t: "take n s = take n ?w"
  proof -
    have "take h s = ?w @ dropWhile p (take h s)" by simp
    then have "take n (take h s) = take n ?w" using a
      by (metis run_len_def option.simps(5) append_Nil2 diff_is_0_eq take_0 take_append)
    moreover have "n \<le> h" using a run_len_le(1)[of p h s] by simp
    ultimately show ?thesis by (simp add: min_def)
  qed
  have "list_all p ?w" by (simp add: list_all_iff) (meson set_takeWhileD)
  then have "list_all p (take n ?w)" by (auto simp: list_all_iff dest: in_set_takeD)
  then show "n \<le> h \<and> n \<le> length s \<and> list_all p (take n s)"
    using a run_len_le(1)[of p h s] run_len_le(2)[of p "Some h" s] t by auto
next
  assume a: "n \<le> h \<and> n \<le> length s \<and> list_all p (take n s)"
  then have "take h s = take n s @ drop n (take h s)"
    by (metis append_take_drop_id min.absorb1 take_take)
  then have "takeWhile p (take h s) = take n s @ takeWhile p (drop n (take h s))"
    using a by (metis list_all_iff takeWhile_append2)
  then have "length (take n s) \<le> length (takeWhile p (take h s))" by simp
  then show "n \<le> run_len p (Some h) s" using a by (simp add: run_len_def)
qed

lemma find_map_comp: "List.find P (map f xs) = map_option f (List.find (\<lambda>x. P (f x)) xs)"
  by (induction xs) auto

lemma find_skip: "\<forall>x\<in>set xs. \<not> P x \<Longrightarrow> List.find P (xs @ ys) = List.find P ys"
  by (induction xs) auto

lemma find_SomeP: "List.find P xs = Some x \<Longrightarrow> P x"
  by (induction xs) (auto split: if_splits)

lemma find_cong_set: "\<forall>x\<in>set xs. P x = Q x \<Longrightarrow> List.find P xs = List.find Q xs"
  by (induction xs) auto

lemma ts_candidates:
  "matches (Grp ''ts'' (Rep ts_class 19 (Some 26) True)) (None, line, []) =
     map (\<lambda>k. (Some (line ! (k - 1)), drop k line, [(''ts'', take k line)]))
       (rev [19..<Suc (run_len ts_class (Some 26) line)])"
proof -
  let ?K = "run_len ts_class (Some 26) line"
  have K: "?K \<le> length line" by (rule run_len_le(2))
  have "matches (Grp ''ts'' (Rep ts_class 19 (Some 26) True)) (None, line, []) =
     map (\<lambda>k. (if k = 0 then None else Some (line ! (k - 1)), drop k line,
               [(''ts'', take (length line - length (drop k line)) line)]))
       (rev [19..<Suc ?K])"
    by (simp add: runs_eq drop_map rev_map comp_def del: upt_Suc)
  also have "\<dots> = map (\<lambda>k. (Some (line ! (k - 1)), drop k line, [(''ts'', take k line)]))
       (rev [19..<Suc ?K])"
    by (rule map_cong) (use K in auto)
  finally show ?thesis .
qed

lemma space_tail_none:
  "\<not> (s \<noteq> [] \<and> is_space (hd s)) \<Longrightarrow> matches (Rep is_space 1 None True) (p, s, c) = []"
  by (cases s) (auto simp: runs_eq run_len_def)

lemma space_tail_first:
  assumes "s \<noteq> []" "is_space (hd s)"
  shows "\<exists>p'. first_match (Rep is_space 1 None True) (p, s, c) = Some (p', dropWhile is_space s, c)"
proof -
  let ?w = "takeWhile is_space s" and ?r = "dropWhile is_space s"
  have w: "\<forall>x\<in>set ?w. is_space x" by (meson set_takeWhileD)
  have r: "?r = [] \<or> \<not> is_space (hd ?r)" by (metis hd_dropWhile)
  have l: "1 \<le> length ?w" using assms by (cases s) auto
  from first_Rep_greedy[OF w r l, of p c] show ?thesis by auto
qed

lemma space_tail_iff:
  "matches (Rep is_space 1 None True) (p, s, c) \<noteq> [] \<longleftrightarrow> s \<noteq> [] \<and> is_space (hd s)"
proof
  assume "matches (Rep is_space 1 None True) (p, s, c) \<noteq> []"
  then show "s \<noteq> [] \<and> is_space (hd s)" using space_tail_none by blast
next
  assume "s \<noteq> [] \<and> is_space (hd s)"
  then obtain p' where "first_match (Rep is_space 1 None True) (p, s, c) = Some (p', dropWhile is_space s, c)"
    using space_tail_first by blast
  then show "matches (Rep is_space 1 None True) (p, s, c) \<noteq> []"
    by (auto simp: first_match_def)
qed

lemma ts_run_candidate:
  assumes "k \<in> set (rev [19..<Suc (run_len ts_class (Some 26) line)])"
  shows "(drop k line \<noteq> [] \<and> is_space (hd (drop k line))) = ts_run line k"
proof -
  have k: "19 \<le> k" "k \<le> run_len ts_class (Some 26) line" using assms by auto
  from k(2) have a: "k \<le> 26" "k \<le> length line" "list_all ts_class (take k line)"
    using run_len_all[of k ts_class 26 line] by auto
  show ?thesis
    using k(1) a by (auto simp: ts_run_def hd_drop_conv_nth)
qed

lemma ts_run_bound: "ts_run line n \<Longrightarrow> n \<le> run_len ts_class (Some 26) line"
  using run_len_all[of n ts_class 26 line] by (auto simp: ts_run_def)

lemma find_ts_run:
  "List.find (ts_run line) (rev [19..<27]) =
   List.find (ts_run line) (rev [19..<Suc (run_len ts_class (Some 26) line)])"
proof -
  let ?K = "run_len ts_class (Some 26) line"
  have K: "?K \<le> 26" by (rule run_len_le(1))
  have "[19..<27] = [19..<Suc ?K] @ [max 19 (Suc ?K)..<27]"
  proof (cases "19 \<le> Suc ?K")
    case True
    then have m: "max 19 (Suc ?K) = Suc ?K" by simp
    have "27 = Suc ?K + (26 - ?K)" using K by simp
    then have "[19..<27] = [19..<Suc ?K + (26 - ?K)]" by simp
    also have "\<dots> = [19..<Suc ?K] @ [Suc ?K..<Suc ?K + (26 - ?K)]"
      using True by (rule upt_add_eq_append)
    also have "Suc ?K + (26 - ?K) = 27" using K by simp
    finally show ?thesis unfolding m .
  next
    case False
    then show ?thesis by (simp add: max_def del: upt_Suc)
  qed
  then have "rev [19..<27] = rev [max 19 (Suc ?K)..<27] @ rev [19..<Suc ?K]"
    by (simp only: rev_append)
  moreover have "\<forall>n\<in>set (rev [max 19 (Suc ?K)..<27]). \<not> ts_run line n"
    using ts_run_bound[of line] by fastforce
  ultimately show ?thesis by (simp only: find_skip)
qed

lemma first_match_TS:
  "first_match TS (None, line, []) =
     (case List.find (ts_run line) (rev [19..<27]) of
        None \<Rightarrow> None
      | Some n \<Rightarrow> first_match (Rep is_space 1 None True)
                    (Some (line ! (n - 1)), drop n line, [(''ts'', take n line)]))"
proof -
  let ?G = "Grp ''ts'' (Rep ts_class 19 (Some 26) True)" and ?S = "Rep is_space 1 None True"
  let ?f = "\<lambda>k. (Some (line ! (k - 1)), drop k line, [(''ts'', take k line)])"
  let ?ks = "rev [19..<Suc (run_len ts_class (Some 26) line)]"
  have "first_match TS (None, line, []) = first_match (Cat ?G ?S) (None, line, [])"
    by (simp add: first_match_def TS_def)
  also have "\<dots> = (case List.find (\<lambda>x. matches ?S x \<noteq> []) (map ?f ?ks) of
        None \<Rightarrow> None | Some x \<Rightarrow> first_match ?S x)"
    by (simp only: first_Cat_find ts_candidates)
  also have "List.find (\<lambda>x. matches ?S x \<noteq> []) (map ?f ?ks) =
               map_option ?f (List.find (\<lambda>k. matches ?S (?f k) \<noteq> []) ?ks)"
    by (rule find_map_comp)
  also have "List.find (\<lambda>k. matches ?S (?f k) \<noteq> []) ?ks = List.find (ts_run line) ?ks"
  proof (rule find_cong_set, rule ballI)
    fix k assume "k \<in> set ?ks"
    from ts_run_candidate[OF this] show "(matches ?S (?f k) \<noteq> []) = ts_run line k"
      by (simp only: space_tail_iff)
  qed
  also have "\<dots> = List.find (ts_run line) (rev [19..<27])"
    by (rule find_ts_run[symmetric])
  finally show ?thesis by (simp split: option.splits)
qed

lemma drop_to_suffix: "line = a @ b \<Longrightarrow> drop (length line - length b) line = b"
  by simp

lemma parse_ts_prefix_eq:
  "parse_ts_prefix line =
     (case List.find (ts_run line) (rev [19..<27]) of
        None \<Rightarrow> (None, line)
      | Some n \<Rightarrow> (Some (take n line), dropWhile is_space (drop n line)))"
proof (cases "List.find (ts_run line) (rev [19..<27])")
  case None
  then have "first_match TS (None, line, []) = None" by (simp add: first_match_TS)
  then show ?thesis using None
    by (simp add: parse_ts_prefix_def rx_match_def match_at_first)
next
  case (Some n)
  then have r: "ts_run line n" by (rule find_SomeP)
  then have d: "drop n line \<noteq> []" "is_space (hd (drop n line))"
    by (auto simp: ts_run_def hd_drop_conv_nth)
  let ?b = "dropWhile is_space (drop n line)"
  from space_tail_first[OF d] obtain p' where
    "first_match (Rep is_space 1 None True)
       (Some (line ! (n - 1)), drop n line, [(''ts'', take n line)]) =
     Some (p', ?b, [(''ts'', take n line)])"
    by blast
  then have f: "first_match TS (None, line, []) = Some (p', ?b, [(''ts'', take n line)])"
    using Some by (simp add: first_match_TS)
  have "line = (take n line @ takeWhile is_space (drop n line)) @ ?b" by simp
  then have e: "drop (length line - length ?b) line = ?b" by (rule drop_to_suffix)
  show ?thesis
    using Some e by (simp add: parse_ts_prefix_def rx_match_def match_at_first f grp_def)
qed

text \<open>
  Claim C2, as stated, fails when more than one run qualifies. The line below begins with
  the 19 characters \<open>2024-01-01 12:00:00\<close>, all of the class and followed by whitespace,
  and \<^verbatim>\<open>parse_ts_prefix\<close> does not return that run: whitespace belongs to the class and
  the quantifier is greedy, so the timestamp is the run of 20 characters that ends with a
  space.
\<close>

theorem parse_ts_prefix_takes_trailing_space:
  "ts_run ''2024-01-01 12:00:00  x'' 19
   \<and> take 19 ''2024-01-01 12:00:00  x'' = ''2024-01-01 12:00:00''
   \<and> parse_ts_prefix ''2024-01-01 12:00:00  x'' = (Some ''2024-01-01 12:00:00 '', ''x'')"
  by code_simp

text \<open>
  Claim C2, amended. If the line begins with a run of 19 to 26 characters drawn from
  digits, colon, period, hyphen and whitespace that is followed by a whitespace character,
  \<^verbatim>\<open>parse_ts_prefix\<close> returns the longest such run as the timestamp, and as the message
  the rest of the line after all the whitespace that follows that run. For every other
  line it returns a null timestamp and the whole line. (\<open>find\<close> tries the lengths 26, 25,
  ..., 19 in this order.)
\<close>

theorem parse_ts_prefix_longest_run:
  "parse_ts_prefix line =
     (case List.find (ts_run line) (rev [19..<27]) of
        None \<Rightarrow> (None, line)
      | Some n \<Rightarrow> (Some (take n line), dropWhile is_space (drop n line)))"
  by (rule parse_ts_prefix_eq)

theorem parse_ts_prefix_longest_run_witness:
  "parse_ts_prefix ''2024-01-01 12:00:00.123   Bottleneck: Network: 87%'' =
     (Some ''2024-01-01 12:00:00.123  '', ''Bottleneck: Network: 87%'')
   \<and> parse_ts_prefix ''2024-01-01 12:00 short'' = (None, ''2024-01-01 12:00 short'')
   \<and> parse_ts_prefix ''2024-01-01T12:00:00 Bottleneck'' = (None, ''2024-01-01T12:00:00 Bottleneck'')"
proof -
  have 1: "(case List.find (ts_run ''2024-01-01 12:00:00.123   Bottleneck: Network: 87%'') (rev [19..<27]) of
        None \<Rightarrow> (None, ''2024-01-01 12:00:00.123   Bottleneck: Network: 87%'')
      | Some n \<Rightarrow> (Some (take n ''2024-01-01 12:00:00.123   Bottleneck: Network: 87%''),
           dropWhile is_space (drop n ''2024-01-01 12:00:00.123   Bottleneck: Network: 87%''))) =
      (Some ''2024-01-01 12:00:00.123  '', ''Bottleneck: Network: 87%'')"
    by code_simp
  have 2: "(case List.find (ts_run ''2024-01-01 12:00 short'') (rev [19..<27]) of
        None \<Rightarrow> (None, ''2024-01-01 12:00 short'')
      | Some n \<Rightarrow> (Some (take n ''2024-01-01 12:00 short''),
           dropWhile is_space (drop n ''2024-01-01 12:00 short''))) =
      (None, ''2024-01-01 12:00 short'')"
    by code_simp
  have 3: "(case List.find (ts_run ''2024-01-01T12:00:00 Bottleneck'') (rev [19..<27]) of
        None \<Rightarrow> (None, ''2024-01-01T12:00:00 Bottleneck'')
      | Some n \<Rightarrow> (Some (take n ''2024-01-01T12:00:00 Bottleneck''),
           dropWhile is_space (drop n ''2024-01-01T12:00:00 Bottleneck''))) =
      (None, ''2024-01-01T12:00:00 Bottleneck'')"
    by code_simp
  show ?thesis
    using parse_ts_prefix_longest_run[of "''2024-01-01 12:00:00.123   Bottleneck: Network: 87%''"]
      parse_ts_prefix_longest_run[of "''2024-01-01 12:00 short''"]
      parse_ts_prefix_longest_run[of "''2024-01-01T12:00:00 Bottleneck''"]
    unfolding 1 2 3 by (intro conjI)
qed

end
